theory Spec2Isabelle
  imports Complex_Main "HOL-Library.Multiset"
begin

section \<open>Data model\<close>

text \<open>
  The entity \<^verbatim>\<open>DiscussionNode\<close> of \<^verbatim>\<open>entities/discussion-node.entity.ts\<close>.
  The enum \<^verbatim>\<open>Operation\<close> is a string enum, so at run time an operation tag is a
  string; the four members are the constants below, and any other string is a tag that
  only the \<^verbatim>\<open>default\<close> branch of \<^verbatim>\<open>calculateResult\<close> accepts.
  The type \<^verbatim>\<open>number\<close> is kept abstract: the type variable \<open>'n\<close> stands for any
  numeric type with a zero and the four arithmetic operators, and the theorems hold for
  each of them. The fields \<^verbatim>\<open>id\<close> and \<^verbatim>\<open>value\<close> are named \<open>nodeId\<close> and
  \<open>nodeValue\<close>. The relation fields \<^verbatim>\<open>parent\<close> and \<^verbatim>\<open>author\<close> carry no logic
  and are left out.
\<close>

type_synonym operation = string

definition ADD :: operation where "ADD = ''add''"
definition SUBTRACT :: operation where "SUBTRACT = ''subtract''"
definition MULTIPLY :: operation where "MULTIPLY = ''multiply''"
definition DIVIDE :: operation where "DIVIDE = ''divide''"

record 'n discussion_node =
  nodeId :: string
  nodeValue :: 'n
  operation :: "operation option"
  operand :: "'n option"
  parentId :: "string option"
  authorId :: string
  createdAt :: nat

text \<open>The two exceptions the service throws, each with its message.\<close>

datatype http_exception =
  NotFoundException string
| BadRequestException string

section \<open>Value computation\<close>

text \<open>
  \<^verbatim>\<open>calculateResult\<close>: the \<^verbatim>\<open>switch\<close> over the operation tag, in the order of
  the source; a \<^verbatim>\<open>throw\<close> is the left injection.
\<close>

definition calculateResult ::
  "'n::{zero,plus,minus,times,inverse} \<Rightarrow> operation \<Rightarrow> 'n \<Rightarrow> http_exception + 'n" where
  "calculateResult leftValue op rightValue =
     (if op = ADD then Inr (leftValue + rightValue)
      else if op = SUBTRACT then Inr (leftValue - rightValue)
      else if op = MULTIPLY then Inr (leftValue * rightValue)
      else if op = DIVIDE then
        (if rightValue = 0 then Inl (BadRequestException ''Division by zero is not allowed'')
         else Inr (leftValue / rightValue))
      else Inl (BadRequestException ''Invalid operation''))"

section \<open>Values at run time\<close>

text \<open>
  The declared type of \<^verbatim>\<open>value\<close> is \<^verbatim>\<open>number\<close>, but its column is
  \<^verbatim>\<open>decimal\<close> with no transformer, and the PostgreSQL driver hands a decimal column
  to JavaScript as a string. The \<^verbatim>\<open>parent.value\<close> that \<^verbatim>\<open>addOperation\<close> passes as
  \<^verbatim>\<open>leftValue\<close> is therefore a string at run time, while \<^verbatim>\<open>rightValue\<close>, the
  validated operand, is a number. A \<open>js_value\<close> is a number or a string, and the four
  operators are those of JavaScript on such values: \<^verbatim>\<open>+\<close> adds two numbers and
  concatenates as soon as one operand is a string; \<^verbatim>\<open>-\<close>, \<^verbatim>\<open>*\<close> and \<^verbatim>\<open>/\<close>
  convert both operands to numbers. The conversions between numbers and strings are the
  parameters \<open>toStr\<close> and \<open>toNum\<close>, so that no result depends on how a number is
  printed or parsed. \<open>calculateResult_runtime\<close> is \<^verbatim>\<open>calculateResult\<close> read with
  these operators; \<^verbatim>\<open>rightValue === 0\<close> holds of the number zero only.
\<close>

datatype 'n js_value = JSNumber 'n | JSString string

definition js_toString :: "('n \<Rightarrow> string) \<Rightarrow> 'n js_value \<Rightarrow> string" where
  "js_toString toStr v = (case v of JSNumber x \<Rightarrow> toStr x | JSString s \<Rightarrow> s)"

definition js_toNumber :: "(string \<Rightarrow> 'n) \<Rightarrow> 'n js_value \<Rightarrow> 'n" where
  "js_toNumber toNum v = (case v of JSNumber x \<Rightarrow> x | JSString s \<Rightarrow> toNum s)"

definition js_add :: "('n::plus \<Rightarrow> string) \<Rightarrow> 'n js_value \<Rightarrow> 'n js_value \<Rightarrow> 'n js_value" where
  "js_add toStr a b =
     (case (a, b) of
        (JSNumber x, JSNumber y) \<Rightarrow> JSNumber (x + y)
      | _ \<Rightarrow> JSString (js_toString toStr a @ js_toString toStr b))"

definition js_subtract :: "(string \<Rightarrow> 'n::minus) \<Rightarrow> 'n js_value \<Rightarrow> 'n js_value \<Rightarrow> 'n js_value" where
  "js_subtract toNum a b = JSNumber (js_toNumber toNum a - js_toNumber toNum b)"

definition js_multiply :: "(string \<Rightarrow> 'n::times) \<Rightarrow> 'n js_value \<Rightarrow> 'n js_value \<Rightarrow> 'n js_value" where
  "js_multiply toNum a b = JSNumber (js_toNumber toNum a * js_toNumber toNum b)"

definition js_divide :: "(string \<Rightarrow> 'n::inverse) \<Rightarrow> 'n js_value \<Rightarrow> 'n js_value \<Rightarrow> 'n js_value" where
  "js_divide toNum a b = JSNumber (js_toNumber toNum a / js_toNumber toNum b)"

definition calculateResult_runtime ::
  "('n::{zero,plus,minus,times,inverse} \<Rightarrow> string) \<Rightarrow> (string \<Rightarrow> 'n) \<Rightarrow> 'n js_value \<Rightarrow> operation
     \<Rightarrow> 'n js_value \<Rightarrow> http_exception + 'n js_value" where
  "calculateResult_runtime toStr toNum leftValue op rightValue =
     (if op = ADD then Inr (js_add toStr leftValue rightValue)
      else if op = SUBTRACT then Inr (js_subtract toNum leftValue rightValue)
      else if op = MULTIPLY then Inr (js_multiply toNum leftValue rightValue)
      else if op = DIVIDE then
        (if rightValue = JSNumber 0
         then Inl (BadRequestException ''Division by zero is not allowed'')
         else Inr (js_divide toNum leftValue rightValue))
      else Inl (BadRequestException ''Invalid operation''))"

section \<open>The node store\<close>

text \<open>
  Modelled from the spec: the repository through which the service reaches the table of
  nodes. It is an object of the TypeORM library, not code of the service; the spec
  describes it as the node store with insert, find by identifier and list. The store is
  the sequence of its rows; \<^verbatim>\<open>create\<close> builds an entity from five attributes,
  without the two columns the database generates; \<^verbatim>\<open>save\<close> inserts it, the database
  assigning the identifier and the creation time (here the arguments \<open>gid\<close> and
  \<open>now\<close>), and returns the stored node; \<^verbatim>\<open>findOne\<close> returns the row with the
  given identifier, or nothing.
\<close>

type_synonym 'n repository = "'n discussion_node list"

type_synonym 'n draft = "string \<Rightarrow> nat \<Rightarrow> 'n discussion_node"

definition repository_create ::
  "'n \<Rightarrow> operation option \<Rightarrow> 'n option \<Rightarrow> string option \<Rightarrow> string \<Rightarrow> 'n draft" where
  "repository_create v op x p a =
     (\<lambda>gid now. \<lparr>nodeId = gid, nodeValue = v, operation = op, operand = x,
                  parentId = p, authorId = a, createdAt = now\<rparr>)"

definition repository_save ::
  "string \<Rightarrow> nat \<Rightarrow> 'n draft \<Rightarrow> 'n repository \<Rightarrow> 'n discussion_node \<times> 'n repository" where
  "repository_save gid now d rows = (d gid now, rows @ [d gid now])"

definition repository_findOne :: "'n repository \<Rightarrow> string \<Rightarrow> 'n discussion_node option" where
  "repository_findOne rows i = find (\<lambda>n. nodeId n = i) rows"

section \<open>Creating nodes\<close>

record 'n create_discussion_dto =
  startingNumber :: 'n

record 'n add_operation_dto =
  dtoParentId :: string
  dtoOperation :: operation
  dtoOperand :: 'n

text \<open>
  \<^verbatim>\<open>createDiscussion\<close> and \<^verbatim>\<open>addOperation\<close>, with the store passed in and returned.
  \<^verbatim>\<open>addOperation\<close> throws before it reaches \<^verbatim>\<open>save\<close> when the parent is missing
  or \<^verbatim>\<open>calculateResult\<close> throws.
\<close>

definition createDiscussion ::
  "string \<Rightarrow> nat \<Rightarrow> string \<Rightarrow> 'n create_discussion_dto \<Rightarrow> 'n repository
     \<Rightarrow> 'n discussion_node \<times> 'n repository" where
  "createDiscussion gid now userId createDiscussionDto rows =
     (let node = repository_create (startingNumber createDiscussionDto) None None None userId
      in repository_save gid now node rows)"

definition addOperation ::
  "string \<Rightarrow> nat \<Rightarrow> string \<Rightarrow> 'n::{zero,plus,minus,times,inverse} add_operation_dto
     \<Rightarrow> 'n repository \<Rightarrow> (http_exception + 'n discussion_node) \<times> 'n repository" where
  "addOperation gid now userId addOperationDto rows =
     (case repository_findOne rows (dtoParentId addOperationDto) of
        None \<Rightarrow> (Inl (NotFoundException ''Parent node not found''), rows)
      | Some parent \<Rightarrow>
          (case calculateResult (nodeValue parent) (dtoOperation addOperationDto)
                  (dtoOperand addOperationDto) of
             Inl e \<Rightarrow> (Inl e, rows)
           | Inr result \<Rightarrow>
               (let node = repository_create result (Some (dtoOperation addOperationDto))
                             (Some (dtoOperand addOperationDto)) (Some (nodeId parent)) userId;
                    (saved, rows') = repository_save gid now node rows
                in (Inr saved, rows'))))"

section \<open>Forest reconstruction\<close>

text \<open>
  \<^verbatim>\<open>getAllDiscussions\<close> receives the rows of the table (\<^verbatim>\<open>allNodes\<close>, the result of
  the repository's \<^verbatim>\<open>find\<close>) and builds the forest by mutating shared objects:
  \<^verbatim>\<open>nodeMap\<close> holds one \<^verbatim>\<open>TreeNode\<close> object per identifier, and \<^verbatim>\<open>rootNodes\<close>
  and every \<^verbatim>\<open>children\<close> array hold references to these objects. The model keeps
  this sharing: the object store is \<open>nodeMap\<close> itself and a reference to an object is
  the key under which \<open>nodeMap\<close> holds it. This loses nothing: the first pass creates and
  stores the objects, each under the identifier of its node, the second pass reaches
  objects through \<^verbatim>\<open>nodeMap.get\<close> only, and an object that a later \<^verbatim>\<open>nodeMap.set\<close>
  with the same key has replaced is referenced from nowhere.

  A \<open>tree_node\<close> is a \<open>discussion_node\<close> with the field \<open>children\<close>, as the
  intersection type \<^verbatim>\<open>DiscussionNode & { children: TreeNode[] }\<close> is; \<open>spread\<close> is
  the object literal \<^verbatim>\<open>{ ...node, children: [] }\<close>.
\<close>

record 'n tree_node = "'n discussion_node" +
  children :: "string list"

type_synonym 'n node_map = "string \<rightharpoonup> 'n tree_node"

text \<open>
  The value returned is the array \<open>rootNodes\<close> of references, together with the
  objects they lead to.
\<close>

record 'n forest =
  rootNodes :: "string list"
  nodeMap :: "'n node_map"

definition spread :: "'n discussion_node \<Rightarrow> 'n tree_node" where
  "spread node = discussion_node.extend node (tree_node.fields [])"

text \<open>The callback of the first \<^verbatim>\<open>forEach\<close>.\<close>

definition register :: "'n discussion_node \<Rightarrow> 'n node_map \<Rightarrow> 'n node_map" where
  "register node m = m(nodeId node \<mapsto> spread node)"

text \<open>
  The callback of the second \<^verbatim>\<open>forEach\<close>. \<open>currentNode\<close> is the reference
  \<^verbatim>\<open>nodeMap.get(node.id)!\<close>; the first pass has stored an object under every
  identifier of the list (lemma \<open>currentNode_defined\<close> below), so the reference is the
  key \<open>nodeId node\<close>.
\<close>

definition attach :: "'n discussion_node \<Rightarrow> 'n forest \<Rightarrow> 'n forest" where
  "attach node f =
     (let currentNode = nodeId node in
      case parentId node of
        None \<Rightarrow> f\<lparr>rootNodes := rootNodes f @ [currentNode]\<rparr>
      | Some pid \<Rightarrow>
          (case nodeMap f pid of
             None \<Rightarrow> f
           | Some parent \<Rightarrow>
               f\<lparr>nodeMap := (nodeMap f)(pid \<mapsto> parent\<lparr>children := children parent @ [currentNode]\<rparr>)\<rparr>))"

definition getAllDiscussions :: "'n discussion_node list \<Rightarrow> 'n forest" where
  "getAllDiscussions allNodes =
     fold attach allNodes \<lparr>rootNodes = [], nodeMap = fold register allNodes Map.empty\<rparr>"

subsection \<open>The two passes, one callback at a time\<close>

text \<open>
  The same function as a machine that performs one callback invocation in each step:
  the first \<^verbatim>\<open>forEach\<close>, then the second, then the \<^verbatim>\<open>return\<close>. \<open>remaining\<close>
  holds the elements the current \<^verbatim>\<open>forEach\<close> has not visited yet, \<open>visits\<close> counts
  the callback invocations and \<open>built\<close> is the store with the root sequence. \<open>run\<close>
  lets the machine take a bounded number of steps: it yields the final state when the
  \<^verbatim>\<open>return\<close> is reached within the bound, and nothing otherwise.
\<close>

datatype phase = FirstPass | SecondPass | Returned

record 'n run_state =
  phase :: phase
  remaining :: "'n discussion_node list"
  visits :: nat
  built :: "'n forest"

definition start :: "'n discussion_node list \<Rightarrow> 'n run_state" where
  "start allNodes =
     \<lparr>phase = FirstPass, remaining = allNodes, visits = 0,
      built = \<lparr>rootNodes = [], nodeMap = Map.empty\<rparr>\<rparr>"

definition step :: "'n discussion_node list \<Rightarrow> 'n run_state \<Rightarrow> 'n run_state" where
  "step allNodes s =
     (case phase s of
        FirstPass \<Rightarrow>
          (case remaining s of
             [] \<Rightarrow> s\<lparr>phase := SecondPass, remaining := allNodes\<rparr>
           | node # rest \<Rightarrow>
               s\<lparr>remaining := rest, visits := Suc (visits s),
                 built := (built s)\<lparr>nodeMap := register node (nodeMap (built s))\<rparr>\<rparr>)
      | SecondPass \<Rightarrow>
          (case remaining s of
             [] \<Rightarrow> s\<lparr>phase := Returned\<rparr>
           | node # rest \<Rightarrow>
               s\<lparr>remaining := rest, visits := Suc (visits s), built := attach node (built s)\<rparr>)
      | Returned \<Rightarrow> s)"

fun run :: "nat \<Rightarrow> 'n discussion_node list \<Rightarrow> 'n run_state \<Rightarrow> 'n run_state option" where
  "run 0 allNodes s = (if phase s = Returned then Some s else None)"
| "run (Suc fuel) allNodes s =
     (if phase s = Returned then Some s else run fuel allNodes (step allNodes s))"

subsection \<open>Reading a forest\<close>

text \<open>
  \<open>deref f r\<close> is the entity behind the reference \<open>r\<close> (the object without its
  \<open>children\<close>), \<open>childrenOf f r\<close> its array of children. A reference is \<open>reachable\<close>
  when it is in the returned array or in the \<open>children\<close> of a reachable object: these
  are the objects of the returned forest. A node of the input is \<open>in_forest\<close> when the
  object stored under its identifier is its copy and is reachable.
\<close>

definition deref :: "'n forest \<Rightarrow> string \<Rightarrow> 'n discussion_node option" where
  "deref f r = map_option discussion_node.truncate (nodeMap f r)"

definition childrenOf :: "'n forest \<Rightarrow> string \<Rightarrow> string list" where
  "childrenOf f p = (case nodeMap f p of None \<Rightarrow> [] | Some t \<Rightarrow> children t)"

inductive reachable :: "'n forest \<Rightarrow> string \<Rightarrow> bool" for f :: "'n forest" where
  root: "r \<in> set (rootNodes f) \<Longrightarrow> reachable f r"
| child: "reachable f p \<Longrightarrow> nodeMap f p = Some t \<Longrightarrow> c \<in> set (children t) \<Longrightarrow> reachable f c"

code_pred reachable .

definition in_forest :: "'n forest \<Rightarrow> 'n discussion_node \<Rightarrow> bool" where
  "in_forest f n \<longleftrightarrow> reachable f (nodeId n) \<and> deref f (nodeId n) = Some n"

subsection \<open>Reading the input list\<close>

text \<open>
  \<open>parent_rel ns c p\<close>: some node of the list has identifier \<open>c\<close> and names \<open>p\<close> as
  its parent. \<open>descends ns c a\<close>: the chain of parent references that starts at \<open>c\<close>
  passes through \<open>a\<close>; a node is on a cycle when its identifier descends from itself.
  \<open>rooted ns r\<close>: a chain of parent references leads from \<open>r\<close> to a node without
  parent. \<open>lastWithId\<close>, \<open>rootIds\<close> and \<open>childIds\<close> describe the result of the two passes.
\<close>

definition parent_rel :: "'n discussion_node list \<Rightarrow> string \<Rightarrow> string \<Rightarrow> bool" where
  "parent_rel ns c p \<longleftrightarrow> (\<exists>n \<in> set ns. nodeId n = c \<and> parentId n = Some p)"

definition descends :: "'n discussion_node list \<Rightarrow> string \<Rightarrow> string \<Rightarrow> bool" where
  "descends ns = (parent_rel ns)\<^sup>+\<^sup>+"

inductive rooted :: "'n discussion_node list \<Rightarrow> string \<Rightarrow> bool"
  for ns :: "'n discussion_node list" where
  root: "n \<in> set ns \<Longrightarrow> parentId n = None \<Longrightarrow> rooted ns (nodeId n)"
| child: "n \<in> set ns \<Longrightarrow> parentId n = Some p \<Longrightarrow> rooted ns p \<Longrightarrow> rooted ns (nodeId n)"

definition lastWithId :: "'n discussion_node list \<Rightarrow> string \<Rightarrow> 'n discussion_node option" where
  "lastWithId ns r = find (\<lambda>n. nodeId n = r) (rev ns)"

definition rootIds :: "'n discussion_node list \<Rightarrow> string list" where
  "rootIds ns = map nodeId (filter (\<lambda>n. parentId n = None) ns)"

definition childIds :: "'n discussion_node list \<Rightarrow> string \<Rightarrow> string list" where
  "childIds ns r = map nodeId (filter (\<lambda>n. parentId n = Some r) ns)"

subsection \<open>Nodes for the examples\<close>

definition exampleNode :: "string \<Rightarrow> string option \<Rightarrow> rat \<Rightarrow> rat discussion_node" where
  "exampleNode i p v =
     \<lparr>nodeId = i, nodeValue = v, operation = None, operand = None,
      parentId = p, authorId = ''u'', createdAt = 0\<rparr>"

section \<open>Value computation: properties\<close>

lemma operation_tags_distinct:
  "ADD \<noteq> SUBTRACT" "ADD \<noteq> MULTIPLY" "ADD \<noteq> DIVIDE"
  "SUBTRACT \<noteq> ADD" "SUBTRACT \<noteq> MULTIPLY" "SUBTRACT \<noteq> DIVIDE"
  "MULTIPLY \<noteq> ADD" "MULTIPLY \<noteq> SUBTRACT" "MULTIPLY \<noteq> DIVIDE"
  "DIVIDE \<noteq> ADD" "DIVIDE \<noteq> SUBTRACT" "DIVIDE \<noteq> MULTIPLY"
  by (simp_all add: ADD_def SUBTRACT_def MULTIPLY_def DIVIDE_def)

lemma calculateResult_runtime_numbers:
  "calculateResult_runtime toStr toNum (JSNumber a) op (JSNumber b)
     = map_sum id JSNumber (calculateResult a op b)"
  by (simp add: calculateResult_runtime_def calculateResult_def js_add_def js_subtract_def
      js_multiply_def js_divide_def js_toNumber_def)

lemma calculateResult_runtime_coerces:
  "calculateResult_runtime toStr toNum (JSString s) SUBTRACT (JSNumber x) = Inr (JSNumber (toNum s - x))"
  "calculateResult_runtime toStr toNum (JSString s) MULTIPLY (JSNumber x) = Inr (JSNumber (toNum s * x))"
  "x \<noteq> 0 \<Longrightarrow>
     calculateResult_runtime toStr toNum (JSString s) DIVIDE (JSNumber x) = Inr (JSNumber (toNum s / x))"
  by (simp_all add: calculateResult_runtime_def js_subtract_def js_multiply_def js_divide_def
      js_toNumber_def operation_tags_distinct)

text \<open>
  Claim C1 (the code departs from it). When the parent value arrives as a string, as it
  does from the decimal column, the \<open>add\<close> case returns the concatenation of that
  string with the text of the operand: a string, and not the sum of the parent value
  and the operand. For the stored value 10 and the operand 5 this is the text
  \<^verbatim>\<open>10.0000000000\<close> followed by the text of 5. The other three cases convert the
  string to a number and return the arithmetic result, and on two numbers all four
  cases do (the two lemmas above).
\<close>

theorem calculateResult_add_concatenates:
  "calculateResult_runtime toStr toNum (JSString s) ADD (JSNumber x)
     = Inr (JSString (s @ toStr x))
   \<and> calculateResult_runtime toStr toNum (JSString s) ADD (JSNumber x)
     \<noteq> Inr (JSNumber (toNum s + x))
   \<and> calculateResult_runtime toStr toNum (JSString ''10.0000000000'') ADD (JSNumber (5::rat))
     = Inr (JSString (''10.0000000000'' @ toStr 5))"
  by (simp add: calculateResult_runtime_def js_add_def js_toString_def)

text \<open>
  Claim C2. \<open>calculateResult\<close> fails with the bad-request exception exactly when the
  operation is \<open>divide\<close> and the operand is zero, or the tag is none of the four members
  of the enum; in every other case it returns a value; it throws nothing else.
\<close>

theorem calculateResult_fails_iff:
  "((\<exists>msg. calculateResult pv op x = Inl (BadRequestException msg))
      \<longleftrightarrow> (op = DIVIDE \<and> x = 0) \<or> op \<notin> {ADD, SUBTRACT, MULTIPLY, DIVIDE})
   \<and> (\<not> ((op = DIVIDE \<and> x = 0) \<or> op \<notin> {ADD, SUBTRACT, MULTIPLY, DIVIDE})
      \<longrightarrow> (\<exists>v. calculateResult pv op x = Inr v))
   \<and> (\<forall>msg. calculateResult pv op x \<noteq> Inl (NotFoundException msg))"
  by (auto simp add: calculateResult_def operation_tags_distinct)

theorem calculateResult_fails_iff_witness:
  "(\<exists>msg. calculateResult (10::rat) DIVIDE 0 = Inl (BadRequestException msg))
   \<and> (\<exists>msg. calculateResult (10::rat) ''modulo'' 3 = Inl (BadRequestException msg))
   \<and> \<not> ((DIVIDE = DIVIDE \<and> (5::rat) = 0) \<or> DIVIDE \<notin> {ADD, SUBTRACT, MULTIPLY, DIVIDE})
   \<and> (\<exists>v. calculateResult (10::rat) DIVIDE 5 = Inr v)"
  using calculateResult_fails_iff [of "10::rat" DIVIDE 0]
    calculateResult_fails_iff [of "10::rat" "''modulo''" 3]
    calculateResult_fails_iff [of "10::rat" DIVIDE 5]
  by (simp add: ADD_def SUBTRACT_def MULTIPLY_def DIVIDE_def)

section \<open>Creating nodes: properties\<close>

lemma repository_findOne_None_iff:
  "repository_findOne rows i = None \<longleftrightarrow> i \<notin> nodeId ` set rows"
  by (auto simp add: repository_findOne_def find_None_iff)

text \<open>
  Claim C7. For every author and starting value, \<open>createDiscussion\<close> produces a node
  with no operation, no operand and no parent, whose value is the starting value and
  whose author is the given one; this node is the one row added to the store.
\<close>

theorem createDiscussion_root:
  "operation (fst (createDiscussion gid now userId dto rows)) = None
   \<and> operand (fst (createDiscussion gid now userId dto rows)) = None
   \<and> parentId (fst (createDiscussion gid now userId dto rows)) = None
   \<and> nodeValue (fst (createDiscussion gid now userId dto rows)) = startingNumber dto
   \<and> authorId (fst (createDiscussion gid now userId dto rows)) = userId
   \<and> snd (createDiscussion gid now userId dto rows)
       = rows @ [fst (createDiscussion gid now userId dto rows)]"
  by (simp add: createDiscussion_def repository_create_def repository_save_def)

text \<open>
  Claim C3. When the store has no node with the given parent identifier,
  \<open>addOperation\<close> fails with the not-found exception; and whenever \<open>addOperation\<close>
  fails, with either exception, the store is returned as it was.
\<close>

theorem addOperation_failure:
  "(dtoParentId dto \<notin> nodeId ` set rows \<longrightarrow>
      (\<exists>msg. fst (addOperation gid now userId dto rows) = Inl (NotFoundException msg)))
   \<and> (\<forall>e. fst (addOperation gid now userId dto rows) = Inl e \<longrightarrow>
          snd (addOperation gid now userId dto rows) = rows)"
proof (cases "repository_findOne rows (dtoParentId dto)")
  case None
  then show ?thesis
    by (simp add: addOperation_def)
next
  case (Some parent)
  then have "dtoParentId dto \<in> nodeId ` set rows"
    using repository_findOne_None_iff [of rows "dtoParentId dto"] by simp
  with Some show ?thesis
    by (simp add: addOperation_def repository_save_def Let_def split: sum.splits)
qed

theorem addOperation_failure_witness:
  "dtoParentId \<lparr>dtoParentId = ''P'', dtoOperation = ADD, dtoOperand = (5::rat)\<rparr>
      \<notin> nodeId ` set ([] :: rat repository)
   \<and> fst (addOperation ''N'' 1 ''U''
          \<lparr>dtoParentId = ''P'', dtoOperation = ADD, dtoOperand = (5::rat)\<rparr> [])
        = Inl (NotFoundException ''Parent node not found'')
   \<and> snd (addOperation ''N'' 1 ''U''
          \<lparr>dtoParentId = ''P'', dtoOperation = ADD, dtoOperand = (5::rat)\<rparr> [])
        = []
   \<and> fst (addOperation ''N'' 1 ''U''
          \<lparr>dtoParentId = ''P'', dtoOperation = DIVIDE, dtoOperand = (0::rat)\<rparr>
          [\<lparr>nodeId = ''P'', nodeValue = 10, operation = None, operand = None,
            parentId = None, authorId = ''U'', createdAt = 0\<rparr>])
        = Inl (BadRequestException ''Division by zero is not allowed'')
   \<and> snd (addOperation ''N'' 1 ''U''
          \<lparr>dtoParentId = ''P'', dtoOperation = DIVIDE, dtoOperand = (0::rat)\<rparr>
          [\<lparr>nodeId = ''P'', nodeValue = 10, operation = None, operand = None,
            parentId = None, authorId = ''U'', createdAt = 0\<rparr>])
        = [\<lparr>nodeId = ''P'', nodeValue = 10, operation = None, operand = None,
            parentId = None, authorId = ''U'', createdAt = 0\<rparr>]"
  using addOperation_failure [of "\<lparr>dtoParentId = ''P'', dtoOperation = ADD, dtoOperand = (5::rat)\<rparr>"
      "[]" "''N''" 1 "''U''"]
    addOperation_failure [of "\<lparr>dtoParentId = ''P'', dtoOperation = DIVIDE, dtoOperand = (0::rat)\<rparr>"
      "[\<lparr>nodeId = ''P'', nodeValue = 10, operation = None, operand = None,
            parentId = None, authorId = ''U'', createdAt = 0\<rparr>]" "''N''" 1 "''U''"]
  by (simp add: addOperation_def repository_findOne_def calculateResult_def
        operation_tags_distinct)

section \<open>Forest reconstruction: the result of the two passes\<close>

lemma fold_register:
  "fold register ns m r = (case lastWithId ns r of None \<Rightarrow> m r | Some n \<Rightarrow> Some (spread n))"
proof (induction ns rule: rev_induct)
  case Nil
  then show ?case by (simp add: lastWithId_def)
next
  case (snoc x xs)
  then show ?case by (simp add: lastWithId_def register_def)
qed

lemma attach_rootNodes:
  "rootNodes (attach x f) = rootNodes f @ rootIds [x]"
  by (simp add: attach_def rootIds_def Let_def split: option.splits)

lemma attach_nodeMap:
  "nodeMap (attach x f) r =
     map_option (\<lambda>t. t\<lparr>children := children t @ childIds [x] r\<rparr>) (nodeMap f r)"
  by (cases "nodeMap f r") (auto simp add: attach_def childIds_def Let_def split: option.splits)

lemma fold_attach_rootNodes:
  "rootNodes (fold attach ns f) = rootNodes f @ rootIds ns"
proof (induction ns arbitrary: f)
  case Nil
  then show ?case by (simp add: rootIds_def)
next
  case (Cons x xs)
  then show ?case by (simp add: attach_rootNodes) (simp add: rootIds_def)
qed

lemma fold_attach_nodeMap:
  "nodeMap (fold attach ns f) r =
     map_option (\<lambda>t. t\<lparr>children := children t @ childIds ns r\<rparr>) (nodeMap f r)"
proof (induction ns arbitrary: f)
  case Nil
  then show ?case by (simp add: childIds_def option.map_ident)
next
  case (Cons x xs)
  show ?case
    by (simp add: Cons.IH attach_nodeMap option.map_comp comp_def) (simp add: childIds_def)
qed

lemma getAllDiscussions_rootNodes:
  "rootNodes (getAllDiscussions ns) = rootIds ns"
  by (simp add: getAllDiscussions_def fold_attach_rootNodes)

lemma getAllDiscussions_nodeMap:
  "nodeMap (getAllDiscussions ns) r =
     map_option (\<lambda>n. (spread n)\<lparr>children := childIds ns r\<rparr>) (lastWithId ns r)"
  by (simp add: getAllDiscussions_def fold_attach_nodeMap fold_register spread_def
      discussion_node.defs tree_node.defs split: option.splits)

lemma lastWithId_Some:
  "lastWithId ns r = Some n \<Longrightarrow> n \<in> set ns \<and> nodeId n = r"
proof -
  assume "lastWithId ns r = Some n"
  then obtain i where "i < length (rev ns)" "nodeId (rev ns ! i) = r" "n = rev ns ! i"
    by (auto simp add: lastWithId_def find_Some_iff)
  then have "n \<in> set (rev ns)" "nodeId n = r"
    using nth_mem by blast+
  then show ?thesis by simp
qed

lemma lastWithId_None_iff:
  "lastWithId ns r = None \<longleftrightarrow> r \<notin> nodeId ` set ns"
  by (auto simp add: lastWithId_def find_None_iff)

lemma lastWithId_distinct:
  assumes "distinct (map nodeId ns)" "n \<in> set ns"
  shows "lastWithId ns (nodeId n) = Some n"
proof -
  from assms(2) have "lastWithId ns (nodeId n) \<noteq> None"
    by (simp add: lastWithId_None_iff)
  then obtain m where m: "lastWithId ns (nodeId n) = Some m" by auto
  then have "m \<in> set ns" "nodeId m = nodeId n"
    using lastWithId_Some by blast+
  with assms have "m = n"
    by (meson distinct_map inj_onD)
  with m show ?thesis by simp
qed

lemma children_getAllDiscussions:
  "nodeMap (getAllDiscussions ns) r = Some t \<Longrightarrow> children t = childIds ns r"
  by (auto simp add: getAllDiscussions_nodeMap)

lemma dom_getAllDiscussions:
  "dom (nodeMap (getAllDiscussions ns)) = nodeId ` set ns"
proof -
  have "nodeMap (getAllDiscussions ns) r \<noteq> None \<longleftrightarrow> r \<in> nodeId ` set ns" for r
    using lastWithId_None_iff [of ns r] by (simp add: getAllDiscussions_nodeMap)
  then show ?thesis by (auto simp add: dom_def)
qed

lemma reachable_imp_rooted:
  "reachable (getAllDiscussions ns) r \<Longrightarrow> rooted ns r"
proof (induction rule: reachable.induct)
  case (root r)
  then show ?case
    by (auto simp add: getAllDiscussions_rootNodes rootIds_def intro: rooted.root)
next
  case (child p t c)
  then have "c \<in> set (childIds ns p)"
    using children_getAllDiscussions by fastforce
  with child.IH show ?case
    by (auto simp add: childIds_def intro: rooted.child)
qed

lemma rooted_imp_in_ids:
  "rooted ns r \<Longrightarrow> r \<in> nodeId ` set ns"
  by (induction rule: rooted.induct) auto

lemma rooted_imp_reachable:
  "rooted ns r \<Longrightarrow> reachable (getAllDiscussions ns) r"
proof (induction rule: rooted.induct)
  case (root n)
  then show ?case
    by (auto simp add: getAllDiscussions_rootNodes rootIds_def intro!: reachable.root)
next
  case (child n p)
  from child.hyps(3) have "p \<in> dom (nodeMap (getAllDiscussions ns))"
    by (simp add: dom_getAllDiscussions rooted_imp_in_ids)
  then obtain t where t: "nodeMap (getAllDiscussions ns) p = Some t" by auto
  then have "children t = childIds ns p"
    by (rule children_getAllDiscussions)
  with child.hyps(1,2) have "nodeId n \<in> set (children t)"
    by (auto simp add: childIds_def)
  with child.IH t show ?case
    by (rule reachable.child)
qed

lemma reachable_iff_rooted:
  "reachable (getAllDiscussions ns) r \<longleftrightarrow> rooted ns r"
  using reachable_imp_rooted rooted_imp_reachable by blast

lemma truncate_getAllDiscussions:
  "deref (getAllDiscussions ns) r = lastWithId ns r"
  by (cases "lastWithId ns r")
    (simp_all add: deref_def getAllDiscussions_nodeMap spread_def discussion_node.defs
      tree_node.defs)

lemma in_forest_iff_rooted:
  assumes "distinct (map nodeId ns)" "n \<in> set ns"
  shows "in_forest (getAllDiscussions ns) n \<longleftrightarrow> rooted ns (nodeId n)"
  using assms
  by (simp add: in_forest_def truncate_getAllDiscussions lastWithId_distinct reachable_iff_rooted)

text \<open>With pairwise distinct identifiers the parent relation is a partial function.\<close>


lemma parent_rel_functional:
  assumes "distinct (map nodeId ns)" "parent_rel ns c p" "parent_rel ns c q"
  shows "p = q"
proof -
  from assms(2,3) obtain n m where
    "n \<in> set ns" "nodeId n = c" "parentId n = Some p"
    "m \<in> set ns" "nodeId m = c" "parentId m = Some q"
    by (auto simp add: parent_rel_def)
  moreover with assms(1) have "n = m"
    by (metis distinct_map inj_onD)
  ultimately show ?thesis by simp
qed

lemma rooted_cases_distinct:
  assumes "distinct (map nodeId ns)" "n \<in> set ns" "rooted ns (nodeId n)"
  shows "parentId n = None \<or> (\<exists>p. parentId n = Some p \<and> rooted ns p)"
  using assms(3)
proof (cases rule: rooted.cases)
  case (root m)
  with assms(1,2) have "m = n" by (metis distinct_map inj_onD)
  with root show ?thesis by simp
next
  case (child m p)
  with assms(1,2) have "m = n" by (metis distinct_map inj_onD)
  with child show ?thesis by simp
qed

lemma not_rooted_step:
  assumes "distinct (map nodeId ns)" "parent_rel ns c p" "\<not> rooted ns p"
  shows "\<not> rooted ns c"
proof
  assume r: "rooted ns c"
  from assms(2) obtain n where n: "n \<in> set ns" "nodeId n = c" "parentId n = Some p"
    by (auto simp add: parent_rel_def)
  with assms(1) r rooted_cases_distinct [of ns n] have "rooted ns p" by auto
  with assms(3) show False by simp
qed

lemma not_rooted_descends:
  assumes "distinct (map nodeId ns)" "descends ns d a" "\<not> rooted ns a"
  shows "\<not> rooted ns d"
  using assms(2) unfolding descends_def
proof (induction rule: converse_tranclp_induct)
  case (base y)
  with assms(1,3) show ?case using not_rooted_step by blast
next
  case (step y z)
  with assms(1) show ?case using not_rooted_step by blast
qed

lemma rooted_not_on_cycle:
  assumes d: "distinct (map nodeId ns)"
  shows "rooted ns r \<Longrightarrow> \<not> descends ns r r"
proof (induction rule: rooted.induct)
  case (root n)
  show ?case
  proof
    assume "descends ns (nodeId n) (nodeId n)"
    then obtain z where "parent_rel ns (nodeId n) z"
      unfolding descends_def by (auto dest: tranclpD)
    then obtain m where "m \<in> set ns" "nodeId m = nodeId n" "parentId m = Some z"
      by (auto simp add: parent_rel_def)
    moreover with d root.hyps(1) have "m = n" by (metis distinct_map inj_onD)
    ultimately show False using root.hyps(2) by simp
  qed
next
  case (child n p)
  have np: "parent_rel ns (nodeId n) p"
    using child.hyps(1,2) by (auto simp add: parent_rel_def)
  show ?case
  proof
    assume "descends ns (nodeId n) (nodeId n)"
    then obtain z where z: "parent_rel ns (nodeId n) z" "(parent_rel ns)\<^sup>*\<^sup>* z (nodeId n)"
      unfolding descends_def by (auto dest: tranclpD)
    from d z(1) np have "z = p" by (rule parent_rel_functional)
    with z(2) np have "(parent_rel ns)\<^sup>+\<^sup>+ p p"
      by (auto intro: rtranclp_into_tranclp1)
    with child.IH show False by (simp add: descends_def)
  qed
qed

lemma parent_rel_finite:
  "finite {(p, c). parent_rel ns c p}"
proof -
  have "{(p, c). parent_rel ns c p} \<subseteq> (\<lambda>n. (the (parentId n), nodeId n)) ` set ns"
    by (force simp add: parent_rel_def)
  then show ?thesis by (rule finite_surj [rotated]) simp
qed

lemma descends_trancl:
  "descends ns c a \<longleftrightarrow> (a, c) \<in> {(p, c). parent_rel ns c p}\<^sup>+"
proof -
  have "{(p, c). parent_rel ns c p} = ({(c, p). parent_rel ns c p})\<inverse>" by auto
  then show ?thesis
    by (simp add: descends_def trancl_converse tranclp_unfold)
qed

lemma acyclic_all_rooted:
  assumes d: "distinct (map nodeId ns)"
    and res: "\<forall>n \<in> set ns. \<forall>p. parentId n = Some p \<longrightarrow> p \<in> nodeId ` set ns"
    and acyc: "\<forall>n \<in> set ns. \<not> descends ns (nodeId n) (nodeId n)"
  shows "n \<in> set ns \<Longrightarrow> rooted ns (nodeId n)"
proof -
  let ?R = "{(p, c). parent_rel ns c p}"
  have "acyclic ?R"
  proof (rule acyclicI, rule allI, rule notI)
    fix x assume "(x, x) \<in> ?R\<^sup>+"
    then have dx: "descends ns x x" by (simp add: descends_trancl)
    then obtain z where "parent_rel ns x z"
      unfolding descends_def by (auto dest: tranclpD)
    then have "x \<in> nodeId ` set ns" by (auto simp add: parent_rel_def)
    with acyc dx show False by auto
  qed
  with parent_rel_finite have "wf ?R" by (rule finite_acyclic_wf)
  then have "\<forall>n \<in> set ns. nodeId n = r \<longrightarrow> rooted ns r" for r
  proof (induction r rule: wf_induct_rule)
    case (less r)
    show ?case
    proof (intro ballI impI)
      fix n assume n: "n \<in> set ns" "nodeId n = r"
      show "rooted ns r"
      proof (cases "parentId n")
        case None
        with n show ?thesis using rooted.root by blast
      next
        case (Some p)
        with n res obtain m where m: "m \<in> set ns" "nodeId m = p" by auto
        from Some n have "(p, r) \<in> ?R" by (auto simp add: parent_rel_def)
        with less m have "rooted ns p" by blast
        with n Some show ?thesis using rooted.child by blast
      qed
    qed
  qed
  then show "n \<in> set ns \<Longrightarrow> rooted ns (nodeId n)" by blast
qed

lemma count_list_map_filter:
  "distinct (map f xs) \<Longrightarrow> x \<in> set xs \<Longrightarrow>
     count_list (map f (filter P xs)) (f x) = (if P x then 1 else 0)"
proof (induction xs)
  case Nil
  then show ?case by simp
next
  case (Cons y ys)
  then show ?case by (auto simp add: count_list_0_iff)
qed

lemma count_rootIds:
  "distinct (map nodeId ns) \<Longrightarrow> n \<in> set ns \<Longrightarrow>
     count_list (rootIds ns) (nodeId n) = (if parentId n = None then 1 else 0)"
  unfolding rootIds_def by (rule count_list_map_filter)

lemma count_childIds:
  "distinct (map nodeId ns) \<Longrightarrow> n \<in> set ns \<Longrightarrow>
     count_list (childIds ns p) (nodeId n) = (if parentId n = Some p then 1 else 0)"
  unfolding childIds_def by (rule count_list_map_filter)

lemma childrenOf_getAllDiscussions:
  "childrenOf (getAllDiscussions ns) p = (if p \<in> nodeId ` set ns then childIds ns p else [])"
proof (cases "lastWithId ns p")
  case None
  then show ?thesis
    using lastWithId_None_iff [of ns p]
    by (simp add: childrenOf_def getAllDiscussions_nodeMap)
next
  case (Some n)
  then show ?thesis
    using lastWithId_None_iff [of ns p]
    by (simp add: childrenOf_def getAllDiscussions_nodeMap)
qed

lemma count_slots:
  assumes d: "distinct (map nodeId ns)" and n: "n \<in> set ns"
  shows "count_list (rootNodes (getAllDiscussions ns)) (nodeId n)
         + (\<Sum>p \<in> nodeId ` set ns. count_list (childrenOf (getAllDiscussions ns) p) (nodeId n))
         = (if parentId n = None \<or> (\<exists>p \<in> nodeId ` set ns. parentId n = Some p) then 1 else 0)"
proof -
  have "(\<Sum>p \<in> nodeId ` set ns. count_list (childrenOf (getAllDiscussions ns) p) (nodeId n))
        = (\<Sum>p \<in> nodeId ` set ns. if parentId n = Some p then 1 else 0)"
    using d n by (intro sum.cong) (simp_all add: childrenOf_getAllDiscussions count_childIds)
  also have "\<dots> = (if \<exists>p \<in> nodeId ` set ns. parentId n = Some p then 1 else 0)"
  proof (cases "parentId n")
    case None
    then show ?thesis by simp
  next
    case (Some q)
    have "(\<Sum>p \<in> nodeId ` set ns. if parentId n = Some p then 1 else 0)
          = (\<Sum>p \<in> nodeId ` set ns. if p = q then 1 else (0::nat))"
      using Some by (intro sum.cong) auto
    also have "\<dots> = (if q \<in> nodeId ` set ns then 1 else 0)"
      by (simp add: sum.delta)
    finally show ?thesis using Some by auto
  qed
  finally show ?thesis
    using d n by (auto simp add: getAllDiscussions_rootNodes count_rootIds)
qed

lemma lastWithId_perm:
  assumes "mset xs = mset ys" "distinct (map nodeId xs)"
  shows "lastWithId xs r = lastWithId ys r"
proof -
  from assms(1) have s: "set xs = set ys" by (rule mset_eq_setD)
  from assms(1) have "mset (map nodeId xs) = mset (map nodeId ys)" by simp
  with assms(2) have dy: "distinct (map nodeId ys)"
    using mset_eq_imp_distinct_iff by blast
  show ?thesis
  proof (cases "r \<in> nodeId ` set xs")
    case True
    then obtain n where "n \<in> set xs" "nodeId n = r" by auto
    with s assms(2) dy show ?thesis
      using lastWithId_distinct [of xs n] lastWithId_distinct [of ys n] by simp
  next
    case False
    with s show ?thesis
      using lastWithId_None_iff [of xs r] lastWithId_None_iff [of ys r] by simp
  qed
qed

lemma set_rootIds: "set (rootIds ns) = nodeId ` {n \<in> set ns. parentId n = None}"
  by (auto simp add: rootIds_def)

lemma set_childIds: "set (childIds ns r) = nodeId ` {n \<in> set ns. parentId n = Some r}"
  by (auto simp add: childIds_def)

lemma dom_fold_attach:
  "dom (nodeMap (fold attach xs f)) = dom (nodeMap f)"
  by (auto simp add: fold_attach_nodeMap dom_def)

lemma currentNode_defined:
  "n \<in> set ns \<Longrightarrow>
     nodeId n \<in> dom (nodeMap (fold attach xs \<lparr>rootNodes = [], nodeMap = fold register ns Map.empty\<rparr>))"
proof -
  assume "n \<in> set ns"
  then have "lastWithId ns (nodeId n) \<noteq> None"
    by (simp add: lastWithId_None_iff)
  then have "fold register ns Map.empty (nodeId n) \<noteq> None"
    by (auto simp add: fold_register)
  then have "nodeId n \<in> dom (fold register ns Map.empty)"
    by (simp add: domIff)
  then show ?thesis
    by (simp add: dom_fold_attach)
qed

lemma not_rooted_dangling:
  assumes "distinct (map nodeId ns)" "n \<in> set ns" "parentId n = Some p" "p \<notin> nodeId ` set ns"
  shows "\<not> rooted ns (nodeId n)"
proof
  assume "rooted ns (nodeId n)"
  with assms(1,2,3) have "rooted ns p"
    using rooted_cases_distinct [of ns n] by auto
  with assms(4) show False
    using rooted_imp_in_ids by blast
qed

lemma reachable_no_roots:
  "rootNodes f = [] \<Longrightarrow> \<not> reachable f r"
proof
  assume "rootNodes f = []" "reachable f r"
  from this(2,1) show False
    by (induction rule: reachable.induct) simp_all
qed

lemma rooted_set_mono:
  "rooted xs r \<Longrightarrow> set xs \<subseteq> set ys \<Longrightarrow> rooted ys r"
proof (induction rule: rooted.induct)
  case (root n)
  then show ?case using rooted.root by blast
next
  case (child n p)
  then show ?case using rooted.child by blast
qed

section \<open>Forest reconstruction: properties\<close>

text \<open>
  Claim C4. A node whose parent identifier is the identifier of no node of the list is
  not in the returned forest: it is neither in the root sequence nor in any sequence of
  children, and no reference to it is reachable. The reconstruction is a total function
  and throws nothing. The identifiers of the list are pairwise distinct: the list is the
  content of a table whose primary key is the identifier.
\<close>

theorem dangling_parent_excluded:
  assumes "distinct (map nodeId ns)" and "n \<in> set ns"
    and "parentId n = Some p" and "p \<notin> nodeId ` set ns"
  shows "\<not> in_forest (getAllDiscussions ns) n
         \<and> \<not> reachable (getAllDiscussions ns) (nodeId n)
         \<and> nodeId n \<notin> set (rootNodes (getAllDiscussions ns))
         \<and> (\<forall>q. nodeId n \<notin> set (childrenOf (getAllDiscussions ns) q))"
proof -
  let ?f = "getAllDiscussions ns"
  from assms have nr: "\<not> reachable ?f (nodeId n)"
    by (simp add: reachable_iff_rooted not_rooted_dangling)
  then have "\<not> in_forest ?f n"
    by (simp add: in_forest_def)
  moreover from nr have "nodeId n \<notin> set (rootNodes ?f)"
    using reachable.root by blast
  moreover have "nodeId n \<notin> set (childrenOf ?f q)" for q
  proof
    assume "nodeId n \<in> set (childrenOf ?f q)"
    then have q: "q \<in> nodeId ` set ns" "nodeId n \<in> set (childIds ns q)"
      by (auto simp add: childrenOf_getAllDiscussions split: if_splits)
    then obtain m where "m \<in> set ns" "parentId m = Some q" "nodeId m = nodeId n"
      by (auto simp add: childIds_def)
    moreover with assms(1,2) have "m = n" by (metis distinct_map inj_onD)
    ultimately show False using assms(3,4) q(1) by simp
  qed
  ultimately show ?thesis using nr by blast
qed

theorem dangling_parent_excluded_witness:
  "distinct (map nodeId [exampleNode ''A'' None 1, exampleNode ''B'' (Some ''Z'') 2])
   \<and> exampleNode ''B'' (Some ''Z'') 2 \<in> set [exampleNode ''A'' None 1, exampleNode ''B'' (Some ''Z'') 2]
   \<and> parentId (exampleNode ''B'' (Some ''Z'') 2) = Some ''Z''
   \<and> ''Z'' \<notin> nodeId ` set [exampleNode ''A'' None 1, exampleNode ''B'' (Some ''Z'') 2]
   \<and> \<not> in_forest (getAllDiscussions [exampleNode ''A'' None 1, exampleNode ''B'' (Some ''Z'') 2])
         (exampleNode ''B'' (Some ''Z'') 2)
   \<and> rootNodes (getAllDiscussions [exampleNode ''A'' None 1, exampleNode ''B'' (Some ''Z'') 2]) = [''A'']
   \<and> childrenOf (getAllDiscussions [exampleNode ''A'' None 1, exampleNode ''B'' (Some ''Z'') 2]) ''A'' = []"
  using dangling_parent_excluded [of "[exampleNode ''A'' None 1, exampleNode ''B'' (Some ''Z'') 2]"
      "exampleNode ''B'' (Some ''Z'') 2" "''Z''"]
  by (simp add: exampleNode_def getAllDiscussions_def attach_def register_def spread_def
      childrenOf_def discussion_node.defs tree_node.defs)

lemma rooted_set_eq:
  "set xs = set ys \<Longrightarrow> rooted xs r \<longleftrightarrow> rooted ys r"
  using rooted_set_mono [of xs r ys] rooted_set_mono [of ys r xs] by auto

lemma deref_root_objects:
  "distinct (map nodeId ns) \<Longrightarrow>
     map (deref (getAllDiscussions ns)) (map nodeId (filter P ns)) = map Some (filter P ns)"
  by (simp add: truncate_getAllDiscussions lastWithId_distinct comp_def cong: map_cong)

text \<open>
  Claim C5. For two orderings of the same nodes the root sequences hold the same set of
  references, every object has the same set of children and the same references are
  reachable; the identifiers being pairwise distinct (the identifier is the primary
  key), the object behind every reference is the same as well, so that the two forests
  have the same set of roots, the same parent-child relation and the same members.
\<close>

theorem forest_order_independent:
  assumes "mset xs = mset ys"
  shows "set (rootNodes (getAllDiscussions xs)) = set (rootNodes (getAllDiscussions ys))
         \<and> (\<forall>r. set (childrenOf (getAllDiscussions xs) r) = set (childrenOf (getAllDiscussions ys) r))
         \<and> (\<forall>r. reachable (getAllDiscussions xs) r \<longleftrightarrow> reachable (getAllDiscussions ys) r)
         \<and> (distinct (map nodeId xs) \<longrightarrow>
              (\<forall>r. deref (getAllDiscussions xs) r = deref (getAllDiscussions ys) r)
              \<and> set (map (deref (getAllDiscussions xs)) (rootNodes (getAllDiscussions xs)))
                  = set (map (deref (getAllDiscussions ys)) (rootNodes (getAllDiscussions ys)))
              \<and> (\<forall>n. in_forest (getAllDiscussions xs) n \<longleftrightarrow> in_forest (getAllDiscussions ys) n))"
proof -
  from assms have s: "set xs = set ys" by (rule mset_eq_setD)
  have roots: "set (rootNodes (getAllDiscussions xs)) = set (rootNodes (getAllDiscussions ys))"
    using s by (simp add: getAllDiscussions_rootNodes set_rootIds)
  have kids: "set (childrenOf (getAllDiscussions xs) r) = set (childrenOf (getAllDiscussions ys) r)" for r
    using s by (simp add: childrenOf_getAllDiscussions set_childIds)
  have reach: "reachable (getAllDiscussions xs) r \<longleftrightarrow> reachable (getAllDiscussions ys) r" for r
    using rooted_set_eq [OF s, of r] by (simp add: reachable_iff_rooted)
  have objs: "deref (getAllDiscussions xs) r = deref (getAllDiscussions ys) r"
    if "distinct (map nodeId xs)" for r
    using assms that by (simp add: truncate_getAllDiscussions lastWithId_perm)
  have "set (map (deref (getAllDiscussions xs)) (rootNodes (getAllDiscussions xs)))
          = set (map (deref (getAllDiscussions ys)) (rootNodes (getAllDiscussions ys)))"
    if "distinct (map nodeId xs)"
    using objs [OF that] roots by simp
  moreover have "in_forest (getAllDiscussions xs) n \<longleftrightarrow> in_forest (getAllDiscussions ys) n"
    if "distinct (map nodeId xs)" for n
    using objs [OF that] reach by (simp add: in_forest_def)
  ultimately show ?thesis
    using roots kids reach objs by blast
qed

theorem forest_order_independent_witness:
  "mset [exampleNode ''A'' None 1, exampleNode ''B'' (Some ''A'') 2, exampleNode ''C'' (Some ''B'') 3]
     = mset [exampleNode ''C'' (Some ''B'') 3, exampleNode ''B'' (Some ''A'') 2, exampleNode ''A'' None 1]
   \<and> distinct (map nodeId
        [exampleNode ''A'' None 1, exampleNode ''B'' (Some ''A'') 2, exampleNode ''C'' (Some ''B'') 3])
   \<and> rootNodes (getAllDiscussions
        [exampleNode ''C'' (Some ''B'') 3, exampleNode ''B'' (Some ''A'') 2, exampleNode ''A'' None 1])
       = [''A'']
   \<and> set (childrenOf (getAllDiscussions
        [exampleNode ''C'' (Some ''B'') 3, exampleNode ''B'' (Some ''A'') 2, exampleNode ''A'' None 1]) ''A'')
       = {''B''}
   \<and> set (childrenOf (getAllDiscussions
        [exampleNode ''C'' (Some ''B'') 3, exampleNode ''B'' (Some ''A'') 2, exampleNode ''A'' None 1]) ''B'')
       = {''C''}
   \<and> set (childrenOf (getAllDiscussions
        [exampleNode ''C'' (Some ''B'') 3, exampleNode ''B'' (Some ''A'') 2, exampleNode ''A'' None 1]) ''C'')
       = {}
   \<and> deref (getAllDiscussions
        [exampleNode ''C'' (Some ''B'') 3, exampleNode ''B'' (Some ''A'') 2, exampleNode ''A'' None 1]) ''B''
       = Some (exampleNode ''B'' (Some ''A'') 2)"
proof -
  let ?xs = "[exampleNode ''A'' None 1, exampleNode ''B'' (Some ''A'') 2, exampleNode ''C'' (Some ''B'') 3]"
  let ?ys = "[exampleNode ''C'' (Some ''B'') 3, exampleNode ''B'' (Some ''A'') 2, exampleNode ''A'' None 1]"
  have m: "mset ?xs = mset ?ys" by (simp add: add_mset_commute)
  have d: "distinct (map nodeId ?xs)" by (simp add: exampleNode_def)
  have r: "rootNodes (getAllDiscussions ?xs) = [''A'']"
    by (simp add: exampleNode_def getAllDiscussions_def attach_def register_def spread_def
      discussion_node.defs tree_node.defs)
  have c: "childrenOf (getAllDiscussions ?xs) ''A'' = [''B'']"
    "childrenOf (getAllDiscussions ?xs) ''B'' = [''C'']"
    "childrenOf (getAllDiscussions ?xs) ''C'' = []"
    by (simp_all add: exampleNode_def getAllDiscussions_def attach_def register_def spread_def
      childrenOf_def discussion_node.defs tree_node.defs)
  have o: "deref (getAllDiscussions ?xs) ''B'' = Some (exampleNode ''B'' (Some ''A'') 2)"
    by (simp add: exampleNode_def getAllDiscussions_def attach_def register_def spread_def
      deref_def discussion_node.defs tree_node.defs)
  have ry: "rootNodes (getAllDiscussions ?ys) = [''A'']"
    by (simp add: exampleNode_def getAllDiscussions_def attach_def register_def spread_def
      discussion_node.defs tree_node.defs)
  note T = forest_order_independent [OF m]
  from T have k: "set (childrenOf (getAllDiscussions ?ys) q) = set (childrenOf (getAllDiscussions ?xs) q)" for q
    by simp
  from T d have "deref (getAllDiscussions ?ys) ''B'' = deref (getAllDiscussions ?xs) ''B''"
    by simp
  with o have oy: "deref (getAllDiscussions ?ys) ''B'' = Some (exampleNode ''B'' (Some ''A'') 2)"
    by simp
  from k [of "''A''"] k [of "''B''"] k [of "''C''"] c
  have "set (childrenOf (getAllDiscussions ?ys) ''A'') = {''B''}"
    "set (childrenOf (getAllDiscussions ?ys) ''B'') = {''C''}"
    "set (childrenOf (getAllDiscussions ?ys) ''C'') = {}"
    by simp_all
  with m d ry oy show ?thesis by blast
qed

text \<open>
  Claim C6. The root sequence lists the references to the nodes without parent in the
  order of the input, and the children of every object are the references to the nodes
  that name it as parent, in the order of the input; nothing is sorted. With pairwise
  distinct identifiers the objects behind these references are the copies of these very
  nodes.
\<close>

theorem children_follow_input_order:
  "rootNodes (getAllDiscussions ns) = map nodeId (filter (\<lambda>n. parentId n = None) ns)
   \<and> (\<forall>p t. nodeMap (getAllDiscussions ns) p = Some t \<longrightarrow>
          children t = map nodeId (filter (\<lambda>n. parentId n = Some p) ns))
   \<and> (distinct (map nodeId ns) \<longrightarrow>
          map (deref (getAllDiscussions ns)) (rootNodes (getAllDiscussions ns))
            = map Some (filter (\<lambda>n. parentId n = None) ns)
          \<and> (\<forall>p t. nodeMap (getAllDiscussions ns) p = Some t \<longrightarrow>
                map (deref (getAllDiscussions ns)) (children t)
                  = map Some (filter (\<lambda>n. parentId n = Some p) ns)))"
proof -
  have r: "rootNodes (getAllDiscussions ns) = map nodeId (filter (\<lambda>n. parentId n = None) ns)"
    by (simp add: getAllDiscussions_rootNodes rootIds_def)
  have c: "children t = map nodeId (filter (\<lambda>n. parentId n = Some p) ns)"
    if "nodeMap (getAllDiscussions ns) p = Some t" for p t
    using children_getAllDiscussions [OF that] by (simp add: childIds_def)
  have dr: "map (deref (getAllDiscussions ns)) (rootNodes (getAllDiscussions ns))
            = map Some (filter (\<lambda>n. parentId n = None) ns)"
    if "distinct (map nodeId ns)"
    unfolding r using that by (rule deref_root_objects)
  have dc: "map (deref (getAllDiscussions ns)) (children t)
            = map Some (filter (\<lambda>n. parentId n = Some p) ns)"
    if "distinct (map nodeId ns)" "nodeMap (getAllDiscussions ns) p = Some t" for p t
    unfolding c [OF that(2)] using that(1) by (rule deref_root_objects)
  show ?thesis
    using r c dr dc by blast
qed

theorem children_follow_input_order_witness:
  "nodeMap (getAllDiscussions [exampleNode ''K2'' (Some ''A'') 3, exampleNode ''A'' None 1,
        exampleNode ''K1'' (Some ''A'') 2, exampleNode ''B'' None 4]) ''A''
     = Some ((spread (exampleNode ''A'' None 1))\<lparr>children := [''K2'', ''K1'']\<rparr>)
   \<and> distinct (map nodeId [exampleNode ''K2'' (Some ''A'') 3, exampleNode ''A'' None 1,
        exampleNode ''K1'' (Some ''A'') 2, exampleNode ''B'' None 4])
   \<and> rootNodes (getAllDiscussions [exampleNode ''K2'' (Some ''A'') 3, exampleNode ''A'' None 1,
        exampleNode ''K1'' (Some ''A'') 2, exampleNode ''B'' None 4]) = [''A'', ''B'']
   \<and> map (deref (getAllDiscussions [exampleNode ''K2'' (Some ''A'') 3, exampleNode ''A'' None 1,
        exampleNode ''K1'' (Some ''A'') 2, exampleNode ''B'' None 4])) [''K2'', ''K1'']
     = [Some (exampleNode ''K2'' (Some ''A'') 3), Some (exampleNode ''K1'' (Some ''A'') 2)]"
proof -
  let ?ns = "[exampleNode ''K2'' (Some ''A'') 3, exampleNode ''A'' None 1,
        exampleNode ''K1'' (Some ''A'') 2, exampleNode ''B'' None 4]"
  let ?t = "(spread (exampleNode ''A'' None 1))\<lparr>children := [''K2'', ''K1'']\<rparr>"
  have a: "nodeMap (getAllDiscussions ?ns) ''A'' = Some ?t"
    by (simp add: exampleNode_def getAllDiscussions_def attach_def register_def spread_def
      discussion_node.defs tree_node.defs)
  have d: "distinct (map nodeId ?ns)" by (simp add: exampleNode_def)
  note T = children_follow_input_order [of ?ns]
  from T have "rootNodes (getAllDiscussions ?ns) = map nodeId (filter (\<lambda>n. parentId n = None) ?ns)"
    by (rule conjunct1)
  then have r: "rootNodes (getAllDiscussions ?ns) = [''A'', ''B'']"
    by (simp add: exampleNode_def)
  from T d a have "map (deref (getAllDiscussions ?ns)) (children ?t)
                  = map Some (filter (\<lambda>n. parentId n = Some ''A'') ?ns)"
    by blast
  then have k: "map (deref (getAllDiscussions ?ns)) [''K2'', ''K1'']
     = [Some (exampleNode ''K2'' (Some ''A'') 3), Some (exampleNode ''K1'' (Some ''A'') 2)]"
    by (simp add: exampleNode_def)
  from a d r k show ?thesis by blast
qed

lemma descends_parent_resolves:
  assumes "descends ns d a" "a \<in> nodeId ` set ns"
  shows "\<exists>m \<in> set ns. \<exists>q. nodeId m = d \<and> parentId m = Some q \<and> q \<in> nodeId ` set ns"
proof -
  from assms(1) obtain z where z: "parent_rel ns d z" "(parent_rel ns)\<^sup>*\<^sup>* z a"
    unfolding descends_def by (auto dest: tranclpD)
  from z(2) have "z \<in> nodeId ` set ns"
  proof (cases rule: converse_rtranclpE)
    case base
    with assms(2) show ?thesis by simp
  next
    case (step y)
    then show ?thesis by (auto simp add: parent_rel_def)
  qed
  with z(1) show ?thesis by (auto simp add: parent_rel_def)
qed

lemma rooted_unfold:
  "rooted ns r \<longleftrightarrow>
     (\<exists>n \<in> set ns. nodeId n = r \<and> (case parentId n of None \<Rightarrow> True | Some p \<Rightarrow> rooted ns p))"
proof
  assume "rooted ns r"
  then show "\<exists>n \<in> set ns. nodeId n = r \<and> (case parentId n of None \<Rightarrow> True | Some p \<Rightarrow> rooted ns p)"
    by (cases rule: rooted.cases) auto
next
  assume "\<exists>n \<in> set ns. nodeId n = r \<and> (case parentId n of None \<Rightarrow> True | Some p \<Rightarrow> rooted ns p)"
  then obtain n where n: "n \<in> set ns" "nodeId n = r"
    "case parentId n of None \<Rightarrow> True | Some p \<Rightarrow> rooted ns p" by auto
  show "rooted ns r"
  proof (cases "parentId n")
    case None
    with n show ?thesis using rooted.root by blast
  next
    case (Some p)
    with n show ?thesis using rooted.child [of n ns p] by auto
  qed
qed

text \<open>
  Claim C8. When a node is left out of the forest because its parent identifier is
  dangling, every node whose chain of parent references passes through it is absent
  from the forest too, although its own parent identifier is the identifier of a node
  of the list. The identifiers of the list are pairwise distinct (the identifier is the
  primary key).
\<close>

theorem descendants_of_dangling_excluded:
  assumes "distinct (map nodeId ns)" and "n \<in> set ns"
    and "parentId n = Some p" and "p \<notin> nodeId ` set ns"
    and "d \<in> set ns" and "descends ns (nodeId d) (nodeId n)"
  shows "\<not> in_forest (getAllDiscussions ns) n
         \<and> \<not> in_forest (getAllDiscussions ns) d
         \<and> \<not> reachable (getAllDiscussions ns) (nodeId d)
         \<and> (\<exists>q. parentId d = Some q \<and> q \<in> nodeId ` set ns)"
proof -
  from assms(1-4) have n: "\<not> rooted ns (nodeId n)"
    by (rule not_rooted_dangling)
  with assms(1,6) have d: "\<not> rooted ns (nodeId d)"
    using not_rooted_descends by blast
  from assms(2,6) obtain m q where
    m: "m \<in> set ns" "nodeId m = nodeId d" "parentId m = Some q" "q \<in> nodeId ` set ns"
    using descends_parent_resolves [of ns "nodeId d" "nodeId n"] by auto
  with assms(1,5) have "m = d" by (metis distinct_map inj_onD)
  with m have "\<exists>q. parentId d = Some q \<and> q \<in> nodeId ` set ns" by auto
  with n d show ?thesis
    by (simp add: in_forest_def reachable_iff_rooted)
qed

theorem descendants_of_dangling_excluded_witness:
  "distinct (map nodeId [exampleNode ''A'' None 1, exampleNode ''C'' (Some ''B'') 3,
      exampleNode ''B'' (Some ''Z'') 2])
   \<and> exampleNode ''B'' (Some ''Z'') 2 \<in> set [exampleNode ''A'' None 1,
      exampleNode ''C'' (Some ''B'') 3, exampleNode ''B'' (Some ''Z'') 2]
   \<and> parentId (exampleNode ''B'' (Some ''Z'') 2) = Some ''Z''
   \<and> ''Z'' \<notin> nodeId ` set [exampleNode ''A'' None 1, exampleNode ''C'' (Some ''B'') 3,
      exampleNode ''B'' (Some ''Z'') 2]
   \<and> exampleNode ''C'' (Some ''B'') 3 \<in> set [exampleNode ''A'' None 1,
      exampleNode ''C'' (Some ''B'') 3, exampleNode ''B'' (Some ''Z'') 2]
   \<and> descends [exampleNode ''A'' None 1, exampleNode ''C'' (Some ''B'') 3,
      exampleNode ''B'' (Some ''Z'') 2] ''C'' ''B''
   \<and> \<not> in_forest (getAllDiscussions [exampleNode ''A'' None 1, exampleNode ''C'' (Some ''B'') 3,
      exampleNode ''B'' (Some ''Z'') 2]) (exampleNode ''C'' (Some ''B'') 3)
   \<and> rootNodes (getAllDiscussions [exampleNode ''A'' None 1, exampleNode ''C'' (Some ''B'') 3,
      exampleNode ''B'' (Some ''Z'') 2]) = [''A'']
   \<and> childrenOf (getAllDiscussions [exampleNode ''A'' None 1, exampleNode ''C'' (Some ''B'') 3,
      exampleNode ''B'' (Some ''Z'') 2]) ''A'' = []
   \<and> childrenOf (getAllDiscussions [exampleNode ''A'' None 1, exampleNode ''C'' (Some ''B'') 3,
      exampleNode ''B'' (Some ''Z'') 2]) ''B'' = [''C'']"
proof -
  let ?ns = "[exampleNode ''A'' None 1, exampleNode ''C'' (Some ''B'') 3,
      exampleNode ''B'' (Some ''Z'') 2]"
  have h1: "distinct (map nodeId ?ns)" by (simp add: exampleNode_def)
  have h2: "exampleNode ''B'' (Some ''Z'') 2 \<in> set ?ns" by simp
  have h3: "parentId (exampleNode ''B'' (Some ''Z'') 2) = Some ''Z''" by (simp add: exampleNode_def)
  have h4: "''Z'' \<notin> nodeId ` set ?ns" by (simp add: exampleNode_def)
  have h5: "exampleNode ''C'' (Some ''B'') 3 \<in> set ?ns" by simp
  have "parent_rel ?ns ''C'' ''B''" by (simp add: parent_rel_def exampleNode_def)
  then have h6: "descends ?ns ''C'' ''B''" by (simp add: descends_def tranclp.r_into_trancl)
  then have h6': "descends ?ns (nodeId (exampleNode ''C'' (Some ''B'') 3))
      (nodeId (exampleNode ''B'' (Some ''Z'') 2))" by (simp add: exampleNode_def)
  have r: "rootNodes (getAllDiscussions ?ns) = [''A'']"
    by (simp add: exampleNode_def getAllDiscussions_def attach_def register_def spread_def
      discussion_node.defs tree_node.defs)
  have c: "childrenOf (getAllDiscussions ?ns) ''A'' = []"
    "childrenOf (getAllDiscussions ?ns) ''B'' = [''C'']"
    by (simp_all add: exampleNode_def getAllDiscussions_def attach_def register_def spread_def
      childrenOf_def discussion_node.defs tree_node.defs)
  from descendants_of_dangling_excluded [OF h1 h2 h3 h4 h5 h6']
  have "\<not> in_forest (getAllDiscussions ?ns) (exampleNode ''C'' (Some ''B'') 3)" by simp
  with h1 h2 h3 h4 h5 h6 r c show ?thesis by blast
qed

lemma sum_length_filter_le:
  "finite S \<Longrightarrow>
     (\<Sum>p \<in> S. length (filter (\<lambda>n. g n = Some p) ns)) \<le> length (filter (\<lambda>n. g n \<noteq> None) ns)"
proof (induction ns)
  case Nil
  then show ?case by simp
next
  case (Cons x xs)
  have "(\<Sum>p \<in> S. length (filter (\<lambda>n. g n = Some p) (x # xs)))
        = (\<Sum>p \<in> S. (if g x = Some p then 1 else 0) + length (filter (\<lambda>n. g n = Some p) xs))"
    by (intro sum.cong) simp_all
  also have "\<dots> = (\<Sum>p \<in> S. if g x = Some p then 1 else 0)
                  + (\<Sum>p \<in> S. length (filter (\<lambda>n. g n = Some p) xs))"
    by (simp add: sum.distrib)
  also have "(\<Sum>p \<in> S. if g x = Some p then 1 else 0) \<le> (if g x \<noteq> None then 1 else (0::nat))"
  proof (cases "g x")
    case None
    then show ?thesis by simp
  next
    case (Some q)
    have "(\<Sum>p \<in> S. if g x = Some p then 1 else 0) = (\<Sum>p \<in> S. if p = q then 1 else (0::nat))"
      using Some by (intro sum.cong) auto
    also have "\<dots> = (if q \<in> S then 1 else 0)"
      using Cons.prems by (simp add: sum.delta)
    finally show ?thesis using Some by simp
  qed
  finally show ?case
    using Cons.IH [OF Cons.prems] by (auto split: if_splits)
qed

lemma forest_size_bound:
  "length (rootNodes (getAllDiscussions ns))
     + (\<Sum>p \<in> nodeId ` set ns. length (childrenOf (getAllDiscussions ns) p)) \<le> length ns"
proof -
  have "(\<Sum>p \<in> nodeId ` set ns. length (childrenOf (getAllDiscussions ns) p))
        = (\<Sum>p \<in> nodeId ` set ns. length (filter (\<lambda>n. parentId n = Some p) ns))"
    by (intro sum.cong) (simp_all add: childrenOf_getAllDiscussions childIds_def)
  also have "\<dots> \<le> length (filter (\<lambda>n. parentId n \<noteq> None) ns)"
    by (rule sum_length_filter_le) simp
  finally have "(\<Sum>p \<in> nodeId ` set ns. length (childrenOf (getAllDiscussions ns) p))
        \<le> length (filter (\<lambda>n. parentId n \<noteq> None) ns)" .
  moreover have "length (rootNodes (getAllDiscussions ns)) = length (filter (\<lambda>n. parentId n = None) ns)"
    by (simp add: getAllDiscussions_rootNodes rootIds_def)
  moreover have "length (filter (\<lambda>n. parentId n = None) ns)
                 + length (filter (\<lambda>n. parentId n \<noteq> None) ns) = length ns"
    using sum_length_filter_compl [of "\<lambda>n. parentId n = None" ns] by simp
  ultimately show ?thesis by linarith
qed

lemma run_Returned:
  "phase s = Returned \<Longrightarrow> run fuel ns s = Some s"
  by (cases fuel) simp_all

lemma run_FirstPass:
  "run fuel ns \<lparr>phase = FirstPass, remaining = xs, visits = v, built = f\<rparr>
     = (if length xs < fuel
        then run (fuel - length xs - 1) ns
               \<lparr>phase = SecondPass, remaining = ns, visits = v + length xs,
                built = f\<lparr>nodeMap := fold register xs (nodeMap f)\<rparr>\<rparr>
        else None)"
proof (induction xs arbitrary: fuel v f)
  case Nil
  then show ?case by (cases fuel) (simp_all add: step_def)
next
  case (Cons x xs)
  show ?case
  proof (cases fuel)
    case 0
    then show ?thesis by simp
  next
    case (Suc k)
    then show ?thesis by (simp add: step_def Cons.IH)
  qed
qed

lemma run_SecondPass:
  "run fuel ns \<lparr>phase = SecondPass, remaining = xs, visits = v, built = f\<rparr>
     = (if length xs < fuel
        then Some \<lparr>phase = Returned, remaining = [], visits = v + length xs,
                built = fold attach xs f\<rparr>
        else None)"
proof (induction xs arbitrary: fuel v f)
  case Nil
  then show ?case by (cases fuel) (simp_all add: step_def run_Returned)
next
  case (Cons x xs)
  show ?case
  proof (cases fuel)
    case 0
    then show ?thesis by simp
  next
    case (Suc k)
    then show ?thesis by (simp add: step_def Cons.IH)
  qed
qed

lemma run_start:
  "run fuel ns (start ns)
     = (if 2 * length ns + 2 \<le> fuel
        then Some \<lparr>phase = Returned, remaining = [], visits = 2 * length ns,
                built = getAllDiscussions ns\<rparr>
        else None)"
  by (auto simp add: start_def run_FirstPass run_SecondPass getAllDiscussions_def)

text \<open>
  Claim C9. On every input list, cyclic parent references included, the reconstruction
  returns: with at least \<open>2 * length ns + 2\<close> steps the machine reaches the
  \<^verbatim>\<open>return\<close>, and with fewer it does not. By then it has invoked a callback exactly
  twice for each node of the list, once in each pass, whatever the parent references
  are: no step follows a parent or a children reference, so nothing recurses. The state
  it returns holds \<open>getAllDiscussions ns\<close>, and nothing is thrown. The second pass
  stores at most one reference for each node. A node whose chain of parent references
  returns to itself is absent from the returned forest; the identifiers of the list are
  pairwise distinct (the identifier is the primary key).
\<close>

theorem cycles_terminate_and_are_absent:
  "run fuel ns (start ns)
     = (if 2 * length ns + 2 \<le> fuel
        then Some \<lparr>phase = Returned, remaining = [], visits = 2 * length ns,
                built = getAllDiscussions ns\<rparr>
        else None)
   \<and> length (rootNodes (getAllDiscussions ns))
       + (\<Sum>p \<in> nodeId ` set ns. length (childrenOf (getAllDiscussions ns) p)) \<le> length ns
   \<and> (distinct (map nodeId ns) \<longrightarrow>
        (\<forall>n \<in> set ns. descends ns (nodeId n) (nodeId n) \<longrightarrow>
           \<not> in_forest (getAllDiscussions ns) n
           \<and> \<not> reachable (getAllDiscussions ns) (nodeId n)))"
proof -
  have r: "\<not> reachable (getAllDiscussions ns) (nodeId n)"
    if "distinct (map nodeId ns)" "descends ns (nodeId n) (nodeId n)" for n
    using that rooted_not_on_cycle [of ns "nodeId n"] by (auto simp add: reachable_iff_rooted)
  have i: "\<not> in_forest (getAllDiscussions ns) n"
    if "distinct (map nodeId ns)" "descends ns (nodeId n) (nodeId n)" for n
    using r [OF that] by (simp add: in_forest_def)
  from run_start [of fuel ns] forest_size_bound [of ns] r i show ?thesis
    by blast
qed

theorem cycles_terminate_and_are_absent_witness:
  "run 10 [exampleNode ''A'' (Some ''B'') 1, exampleNode ''B'' (Some ''A'') 2,
      exampleNode ''S'' (Some ''S'') 3, exampleNode ''R'' None 4]
     (start [exampleNode ''A'' (Some ''B'') 1, exampleNode ''B'' (Some ''A'') 2,
      exampleNode ''S'' (Some ''S'') 3, exampleNode ''R'' None 4])
     = Some \<lparr>phase = Returned, remaining = [], visits = 8,
         built = getAllDiscussions [exampleNode ''A'' (Some ''B'') 1,
           exampleNode ''B'' (Some ''A'') 2, exampleNode ''S'' (Some ''S'') 3,
           exampleNode ''R'' None 4]\<rparr>
   \<and> run 9 [exampleNode ''A'' (Some ''B'') 1, exampleNode ''B'' (Some ''A'') 2,
      exampleNode ''S'' (Some ''S'') 3, exampleNode ''R'' None 4]
     (start [exampleNode ''A'' (Some ''B'') 1, exampleNode ''B'' (Some ''A'') 2,
      exampleNode ''S'' (Some ''S'') 3, exampleNode ''R'' None 4]) = None
   \<and> distinct (map nodeId [exampleNode ''A'' (Some ''B'') 1, exampleNode ''B'' (Some ''A'') 2,
      exampleNode ''S'' (Some ''S'') 3, exampleNode ''R'' None 4])
   \<and> descends [exampleNode ''A'' (Some ''B'') 1, exampleNode ''B'' (Some ''A'') 2,
      exampleNode ''S'' (Some ''S'') 3, exampleNode ''R'' None 4] ''A'' ''A''
   \<and> descends [exampleNode ''A'' (Some ''B'') 1, exampleNode ''B'' (Some ''A'') 2,
      exampleNode ''S'' (Some ''S'') 3, exampleNode ''R'' None 4] ''S'' ''S''
   \<and> \<not> in_forest (getAllDiscussions [exampleNode ''A'' (Some ''B'') 1,
      exampleNode ''B'' (Some ''A'') 2, exampleNode ''S'' (Some ''S'') 3, exampleNode ''R'' None 4])
        (exampleNode ''A'' (Some ''B'') 1)
   \<and> \<not> in_forest (getAllDiscussions [exampleNode ''A'' (Some ''B'') 1,
      exampleNode ''B'' (Some ''A'') 2, exampleNode ''S'' (Some ''S'') 3, exampleNode ''R'' None 4])
        (exampleNode ''S'' (Some ''S'') 3)
   \<and> rootNodes (getAllDiscussions [exampleNode ''A'' (Some ''B'') 1,
      exampleNode ''B'' (Some ''A'') 2, exampleNode ''S'' (Some ''S'') 3, exampleNode ''R'' None 4])
       = [''R'']
   \<and> childrenOf (getAllDiscussions [exampleNode ''A'' (Some ''B'') 1,
      exampleNode ''B'' (Some ''A'') 2, exampleNode ''S'' (Some ''S'') 3, exampleNode ''R'' None 4])
       ''R'' = []"
proof -
  let ?a = "exampleNode ''A'' (Some ''B'') 1"
  let ?s = "exampleNode ''S'' (Some ''S'') 3"
  let ?ns = "[?a, exampleNode ''B'' (Some ''A'') 2, ?s, exampleNode ''R'' None 4]"
  have d: "distinct (map nodeId ?ns)" by (simp add: exampleNode_def)
  have ab: "parent_rel ?ns ''A'' ''B''" and ba: "parent_rel ?ns ''B'' ''A''"
    and ss: "parent_rel ?ns ''S'' ''S''"
    by (simp_all add: parent_rel_def exampleNode_def)
  from ab have "(parent_rel ?ns)\<^sup>+\<^sup>+ ''A'' ''B''" by (rule tranclp.r_into_trancl)
  from this ba have "(parent_rel ?ns)\<^sup>+\<^sup>+ ''A'' ''A''" by (rule tranclp.trancl_into_trancl)
  then have ca: "descends ?ns ''A'' ''A''" by (simp only: descends_def)
  from ss have "(parent_rel ?ns)\<^sup>+\<^sup>+ ''S'' ''S''" by (rule tranclp.r_into_trancl)
  then have cs: "descends ?ns ''S'' ''S''" by (simp only: descends_def)
  have ia: "nodeId ?a = ''A''" and js: "nodeId ?s = ''S''" by (simp_all add: exampleNode_def)
  from cycles_terminate_and_are_absent [of 10 ?ns]
  have g: "run 10 ?ns (start ?ns)
     = Some \<lparr>phase = Returned, remaining = [], visits = 8, built = getAllDiscussions ?ns\<rparr>"
    by simp
  from cycles_terminate_and_are_absent [of 9 ?ns]
  have h: "run 9 ?ns (start ?ns) = None"
    by simp
  note T = cycles_terminate_and_are_absent [of 0 ?ns, THEN conjunct2, THEN conjunct2,
      rule_format, OF d]
  have ma: "?a \<in> set ?ns" and ms: "?s \<in> set ?ns" by simp_all
  from ca ia have ca': "descends ?ns (nodeId ?a) (nodeId ?a)" by (simp only:)
  from cs js have cs': "descends ?ns (nodeId ?s) (nodeId ?s)" by (simp only:)
  from T [OF ma ca'] have xa: "\<not> in_forest (getAllDiscussions ?ns) ?a" by (rule conjunct1)
  from T [OF ms cs'] have xs: "\<not> in_forest (getAllDiscussions ?ns) ?s" by (rule conjunct1)
  have r: "rootNodes (getAllDiscussions ?ns) = [''R'']"
    by (simp add: exampleNode_def getAllDiscussions_def attach_def register_def spread_def
      discussion_node.defs tree_node.defs)
  have c: "childrenOf (getAllDiscussions ?ns) ''R'' = []"
    by (simp add: exampleNode_def getAllDiscussions_def attach_def register_def spread_def
      childrenOf_def discussion_node.defs tree_node.defs)
  from g h d ca cs xa xs r c show ?thesis by blast
qed

text \<open>
  Claim C10, amended. In a list with pairwise distinct identifiers in which every parent
  identifier is the identifier of a node of the list, every node is referenced exactly
  once, in the root sequence or in the children of exactly one object, the object behind
  the reference is the copy of the node, and every reference that occurs is the
  identifier of a node of the list. When moreover no chain of parent references returns
  to its start, every node is in the returned forest. (Two nodes that name each other
  as parent satisfy the hypotheses of the claim and are not in the returned forest, see
  the counterexample.)
\<close>

theorem every_node_exactly_once:
  assumes "distinct (map nodeId ns)"
    and "\<forall>n \<in> set ns. \<forall>p. parentId n = Some p \<longrightarrow> p \<in> nodeId ` set ns"
  shows "(\<forall>n \<in> set ns.
            count_list (rootNodes (getAllDiscussions ns)) (nodeId n)
              + (\<Sum>p \<in> nodeId ` set ns.
                   count_list (childrenOf (getAllDiscussions ns) p) (nodeId n)) = 1
            \<and> deref (getAllDiscussions ns) (nodeId n) = Some n)
         \<and> dom (nodeMap (getAllDiscussions ns)) = nodeId ` set ns
         \<and> set (rootNodes (getAllDiscussions ns)) \<subseteq> nodeId ` set ns
         \<and> (\<forall>p. set (childrenOf (getAllDiscussions ns) p) \<subseteq> nodeId ` set ns)
         \<and> ((\<forall>m \<in> set ns. \<not> descends ns (nodeId m) (nodeId m)) \<longrightarrow>
               (\<forall>n \<in> set ns. in_forest (getAllDiscussions ns) n))"
proof -
  let ?f = "getAllDiscussions ns"
  have once: "count_list (rootNodes ?f) (nodeId n)
              + (\<Sum>p \<in> nodeId ` set ns. count_list (childrenOf ?f p) (nodeId n)) = 1"
    if "n \<in> set ns" for n
  proof -
    from that assms(2) have "parentId n = None \<or> (\<exists>p \<in> nodeId ` set ns. parentId n = Some p)"
      by (cases "parentId n") auto
    with count_slots [OF assms(1) that] show ?thesis by simp
  qed
  have copy: "deref ?f (nodeId n) = Some n" if "n \<in> set ns" for n
    using assms(1) that by (simp add: truncate_getAllDiscussions lastWithId_distinct)
  have roots: "set (rootNodes ?f) \<subseteq> nodeId ` set ns"
    by (auto simp add: getAllDiscussions_rootNodes set_rootIds)
  have kids: "set (childrenOf ?f p) \<subseteq> nodeId ` set ns" for p
    by (auto simp add: childrenOf_getAllDiscussions set_childIds)
  have member: "in_forest ?f n"
    if "\<forall>m \<in> set ns. \<not> descends ns (nodeId m) (nodeId m)" "n \<in> set ns" for n
    using acyclic_all_rooted [OF assms(1,2) that] assms(1) that(2)
    by (simp add: in_forest_iff_rooted)
  from once copy roots kids member dom_getAllDiscussions [of ns] show ?thesis
    by blast
qed

theorem every_node_exactly_once_witness:
  "distinct (map nodeId [exampleNode ''C'' (Some ''B'') 3, exampleNode ''A'' None 1,
      exampleNode ''B'' (Some ''A'') 2])
   \<and> parentId (exampleNode ''C'' (Some ''B'') 3) = Some ''B''
   \<and> parentId (exampleNode ''A'' None 1) = None
   \<and> parentId (exampleNode ''B'' (Some ''A'') 2) = Some ''A''
   \<and> {''A'', ''B''} \<subseteq> nodeId ` set [exampleNode ''C'' (Some ''B'') 3, exampleNode ''A'' None 1,
          exampleNode ''B'' (Some ''A'') 2]
   \<and> \<not> descends [exampleNode ''C'' (Some ''B'') 3, exampleNode ''A'' None 1,
          exampleNode ''B'' (Some ''A'') 2] ''A'' ''A''
   \<and> \<not> descends [exampleNode ''C'' (Some ''B'') 3, exampleNode ''A'' None 1,
          exampleNode ''B'' (Some ''A'') 2] ''B'' ''B''
   \<and> \<not> descends [exampleNode ''C'' (Some ''B'') 3, exampleNode ''A'' None 1,
          exampleNode ''B'' (Some ''A'') 2] ''C'' ''C''
   \<and> in_forest (getAllDiscussions [exampleNode ''C'' (Some ''B'') 3, exampleNode ''A'' None 1,
          exampleNode ''B'' (Some ''A'') 2]) (exampleNode ''C'' (Some ''B'') 3)
   \<and> count_list (rootNodes (getAllDiscussions [exampleNode ''C'' (Some ''B'') 3,
          exampleNode ''A'' None 1, exampleNode ''B'' (Some ''A'') 2])) ''C''
       + (\<Sum>p \<in> nodeId ` set [exampleNode ''C'' (Some ''B'') 3, exampleNode ''A'' None 1,
              exampleNode ''B'' (Some ''A'') 2].
            count_list (childrenOf (getAllDiscussions [exampleNode ''C'' (Some ''B'') 3,
              exampleNode ''A'' None 1, exampleNode ''B'' (Some ''A'') 2]) p) ''C'') = 1
   \<and> rootNodes (getAllDiscussions [exampleNode ''C'' (Some ''B'') 3, exampleNode ''A'' None 1,
          exampleNode ''B'' (Some ''A'') 2]) = [''A'']
   \<and> childrenOf (getAllDiscussions [exampleNode ''C'' (Some ''B'') 3, exampleNode ''A'' None 1,
          exampleNode ''B'' (Some ''A'') 2]) ''B'' = [''C'']"
proof -
  let ?c = "exampleNode ''C'' (Some ''B'') 3"
  let ?ns = "[?c, exampleNode ''A'' None 1, exampleNode ''B'' (Some ''A'') 2]"
  have d: "distinct (map nodeId ?ns)" by (simp add: exampleNode_def)
  have p: "\<forall>n \<in> set ?ns. \<forall>p. parentId n = Some p \<longrightarrow> p \<in> nodeId ` set ?ns"
    by (simp add: exampleNode_def)
  have ra: "rooted ?ns ''A''"
    by (subst rooted_unfold) (simp add: exampleNode_def)
  then have rb: "rooted ?ns ''B''"
    by (subst rooted_unfold) (simp add: exampleNode_def)
  then have rc: "rooted ?ns ''C''"
    by (subst rooted_unfold) (simp add: exampleNode_def)
  from ra rb rc have a: "\<forall>m \<in> set ?ns. \<not> descends ?ns (nodeId m) (nodeId m)"
    using rooted_not_on_cycle [OF d] by (simp add: exampleNode_def)
  have mc: "?c \<in> set ?ns" by simp
  have ic: "nodeId ?c = ''C''" by (simp add: exampleNode_def)
  note T = every_node_exactly_once [OF d p]
  from T a mc have i: "in_forest (getAllDiscussions ?ns) ?c" by blast
  from T mc have "count_list (rootNodes (getAllDiscussions ?ns)) (nodeId ?c)
       + (\<Sum>p \<in> nodeId ` set ?ns. count_list (childrenOf (getAllDiscussions ?ns) p) (nodeId ?c)) = 1"
    by blast
  then have k: "count_list (rootNodes (getAllDiscussions ?ns)) ''C''
       + (\<Sum>p \<in> nodeId ` set ?ns. count_list (childrenOf (getAllDiscussions ?ns) p) ''C'') = 1"
    by (simp only: ic)
  have r: "rootNodes (getAllDiscussions ?ns) = [''A'']"
    by (simp add: exampleNode_def getAllDiscussions_def attach_def register_def spread_def
      discussion_node.defs tree_node.defs)
  have c: "childrenOf (getAllDiscussions ?ns) ''B'' = [''C'']"
    by (simp add: exampleNode_def getAllDiscussions_def attach_def register_def spread_def
      childrenOf_def discussion_node.defs tree_node.defs)
  have q: "parentId ?c = Some ''B''" "parentId (exampleNode ''A'' None 1) = None"
    "parentId (exampleNode ''B'' (Some ''A'') 2) = Some ''A''"
    "{''A'', ''B''} \<subseteq> nodeId ` set ?ns"
    by (simp_all add: exampleNode_def)
  from ra rb rc have n: "\<not> descends ?ns ''A'' ''A''" "\<not> descends ?ns ''B'' ''B''"
    "\<not> descends ?ns ''C'' ''C''"
    using rooted_not_on_cycle [OF d] by blast+
  from d q n i k r c show ?thesis by blast
qed

theorem mutual_parents_counterexample:
  "distinct (map nodeId [exampleNode ''A'' (Some ''B'') 1, exampleNode ''B'' (Some ''A'') 2])
   \<and> parentId (exampleNode ''A'' (Some ''B'') 1) = Some (nodeId (exampleNode ''B'' (Some ''A'') 2))
   \<and> parentId (exampleNode ''B'' (Some ''A'') 2) = Some (nodeId (exampleNode ''A'' (Some ''B'') 1))
   \<and> rootNodes (getAllDiscussions [exampleNode ''A'' (Some ''B'') 1, exampleNode ''B'' (Some ''A'') 2])
       = []
   \<and> childrenOf (getAllDiscussions [exampleNode ''A'' (Some ''B'') 1, exampleNode ''B'' (Some ''A'') 2])
       ''A'' = [''B'']
   \<and> childrenOf (getAllDiscussions [exampleNode ''A'' (Some ''B'') 1, exampleNode ''B'' (Some ''A'') 2])
       ''B'' = [''A'']
   \<and> \<not> in_forest (getAllDiscussions [exampleNode ''A'' (Some ''B'') 1, exampleNode ''B'' (Some ''A'') 2])
       (exampleNode ''A'' (Some ''B'') 1)
   \<and> \<not> in_forest (getAllDiscussions [exampleNode ''A'' (Some ''B'') 1, exampleNode ''B'' (Some ''A'') 2])
       (exampleNode ''B'' (Some ''A'') 2)"
proof -
  let ?ns = "[exampleNode ''A'' (Some ''B'') 1, exampleNode ''B'' (Some ''A'') 2]"
  have r: "rootNodes (getAllDiscussions ?ns) = []"
    by (simp add: exampleNode_def getAllDiscussions_def attach_def register_def spread_def
      discussion_node.defs tree_node.defs)
  then have "\<not> reachable (getAllDiscussions ?ns) x" for x
    by (rule reachable_no_roots)
  then have x: "\<not> in_forest (getAllDiscussions ?ns) n" for n
    by (simp add: in_forest_def)
  have c: "childrenOf (getAllDiscussions ?ns) ''A'' = [''B'']"
    "childrenOf (getAllDiscussions ?ns) ''B'' = [''A'']"
    by (simp_all add: exampleNode_def getAllDiscussions_def attach_def register_def spread_def
      childrenOf_def discussion_node.defs tree_node.defs)
  have "distinct (map nodeId ?ns)"
    "parentId (exampleNode ''A'' (Some ''B'') 1) = Some (nodeId (exampleNode ''B'' (Some ''A'') 2))"
    "parentId (exampleNode ''B'' (Some ''A'') 2) = Some (nodeId (exampleNode ''A'' (Some ''B'') 1))"
    by (simp_all add: exampleNode_def)
  with r c x show ?thesis by blast
qed

end
